theory Spec2Isabelle
  imports Main "HOL-Library.Word"
begin

section \<open>Package gogs: the graceful-shutdown coordinator of gs.go\<close>

text \<open>
  The coordinator of \<^verbatim>\<open>gs.go\<close> is the struct
  \<^verbatim>\<open>
  type GracefulShutdown struct {
      wg   sync.WaitGroup
      list atomic.Int32
  }
  \<close>
  Its counter \<^verbatim>\<open>list\<close> is a 32-bit signed integer whose \<^verbatim>\<open>Add\<close> wraps around, so it
  is a \<open>32 word\<close>, compared with the signed orders \<open><s\<close> and \<open>\<le>s\<close> and read with
  \<open>sint\<close>.

  A call either returns or panics. A panic does not undo what the call has stored
  before, so every operation yields the state it leaves behind together with its
  \<open>outcome\<close>.
\<close>

type_synonym int32 = "32 word"

datatype outcome = Returned | Panicked

subsection \<open>sync.WaitGroup\<close>

text \<open>
  \<^verbatim>\<open>sync.WaitGroup\<close> belongs to the Go runtime. It keeps a signed 32-bit counter and the
  number of goroutines blocked in \<^verbatim>\<open>Wait\<close>. Its \<^verbatim>\<open>Add\<close> is
  \<^verbatim>\<open>
  func (wg *WaitGroup) Add(delta int) {
      state := wg.state.Add(uint64(delta) << 32)
      v := int32(state >> 32)
      w := uint32(state)
      if v < 0 { panic("sync: negative WaitGroup counter") }
      if w != 0 && delta > 0 && v == int32(delta) {
          panic("sync: WaitGroup misuse: Add called concurrently with Wait")
      }
      if v > 0 || w == 0 { return }
      wg.state.Store(0)
      for ; w != 0; w-- { runtime_Semrelease(&wg.sema, false, 0) }
  }
  func (wg *WaitGroup) Done() { wg.Add(-1) }
  \<close>
  The counter is updated before the checks: a panicking \<^verbatim>\<open>Add\<close> leaves the negative
  counter behind. \<^verbatim>\<open>gs.go\<close> passes \<^verbatim>\<open>int(count)\<close> for an \<^verbatim>\<open>int32\<close> count, so
  \<open>delta\<close> is taken as that \<^verbatim>\<open>int32\<close>.
\<close>

record WaitGroup =
  counter :: int32
  waiters :: nat

definition WaitGroup_Add :: "int32 \<Rightarrow> WaitGroup \<Rightarrow> WaitGroup \<times> outcome" where
  "WaitGroup_Add delta g =
     (let v = counter g + delta; w = waiters g in
      if v <s 0 then (g\<lparr>counter := v\<rparr>, Panicked)
      else if w \<noteq> 0 \<and> 0 <s delta \<and> v = delta then (g\<lparr>counter := v\<rparr>, Panicked)
      else if 0 <s v \<or> w = 0 then (g\<lparr>counter := v\<rparr>, Returned)
      else (\<lparr>counter = 0, waiters = 0\<rparr>, Returned))"

definition WaitGroup_Done :: "WaitGroup \<Rightarrow> WaitGroup \<times> outcome" where
  "WaitGroup_Done g = WaitGroup_Add (- 1) g"

subsection \<open>The coordinator and its atomic accesses\<close>

record GracefulShutdown =
  wg :: WaitGroup
  list :: int32

text \<open>\<^verbatim>\<open>&GracefulShutdown{}\<close>, as \<^verbatim>\<open>NewContext\<close> and \<^verbatim>\<open>NewChannel\<close> return it.\<close>

definition New :: GracefulShutdown where
  "New = \<lparr>wg = \<lparr>counter = 0, waiters = 0\<rparr>, list = 0\<rparr>"

text \<open>\<^verbatim>\<open>gs.wg.Add(delta)\<close>, \<^verbatim>\<open>gs.wg.Done()\<close> and \<^verbatim>\<open>gs.list.Add(delta)\<close>.\<close>

definition wg_Add :: "int32 \<Rightarrow> GracefulShutdown \<Rightarrow> GracefulShutdown \<times> outcome" where
  "wg_Add delta gs = (case WaitGroup_Add delta (wg gs) of (g, oc) \<Rightarrow> (gs\<lparr>wg := g\<rparr>, oc))"

definition wg_Done :: "GracefulShutdown \<Rightarrow> GracefulShutdown \<times> outcome" where
  "wg_Done gs = (case WaitGroup_Done (wg gs) of (g, oc) \<Rightarrow> (gs\<lparr>wg := g\<rparr>, oc))"

definition list_Add :: "int32 \<Rightarrow> GracefulShutdown \<Rightarrow> GracefulShutdown" where
  "list_Add delta gs = gs\<lparr>list := list gs + delta\<rparr>"

subsection \<open>Subscribe, SubscribeN, Unsubscribe, UnsubscribeN, Count\<close>

text \<open>
  \<^verbatim>\<open>
  func (gs *GracefulShutdown) Subscribe() {
      gs.list.Add(1)
      gs.wg.Add(1)
  }
  func (gs *GracefulShutdown) SubscribeN(count int32) {
      gs.list.Add(count)
      gs.wg.Add(int(count))
  }
  func (gs *GracefulShutdown) Unsubscribe() {
      if gs.list.Load() == 0 { return }
      gs.list.Add(-1)
      gs.wg.Done()
  }
  func (gs *GracefulShutdown) Count() int32 { return gs.list.Load() }
  \<close>
\<close>

definition Subscribe :: "GracefulShutdown \<Rightarrow> GracefulShutdown \<times> outcome" where
  "Subscribe gs = wg_Add 1 (list_Add 1 gs)"

definition SubscribeN :: "int32 \<Rightarrow> GracefulShutdown \<Rightarrow> GracefulShutdown \<times> outcome" where
  "SubscribeN count gs = wg_Add count (list_Add count gs)"

definition Unsubscribe :: "GracefulShutdown \<Rightarrow> GracefulShutdown \<times> outcome" where
  "Unsubscribe gs =
     (if list gs = 0 then (gs, Returned)
      else wg_Done (list_Add (- 1) gs))"

definition Count :: "GracefulShutdown \<Rightarrow> int32" where
  "Count gs = list gs"

text \<open>
  \<^verbatim>\<open>
  func (gs *GracefulShutdown) UnsubscribeN(count int32) {
      list := gs.list.Load()
      if list == 0 { return }
      if list < count { count = list }
      gs.list.Add(count * -1)
      for i := int32(0); i < count; i++ { gs.wg.Done() }
  }
  \<close>
  The loop is \<open>Done_loop\<close>, started at \<open>i = 0\<close>; a panic of \<^verbatim>\<open>Done\<close> leaves it.
  It terminates because \<open>i\<close> stays below \<open>count\<close>, so \<open>i + 1\<close> does not wrap.
\<close>

function Done_loop :: "int32 \<Rightarrow> int32 \<Rightarrow> GracefulShutdown \<Rightarrow> GracefulShutdown \<times> outcome" where
  "Done_loop i count gs =
     (if i <s count then
        (case wg_Done gs of
           (gs', Returned) \<Rightarrow> Done_loop (i + 1) count gs'
         | (gs', Panicked) \<Rightarrow> (gs', Panicked))
      else (gs, Returned))"
  by pat_completeness auto
termination
proof (relation "measure (\<lambda>(i, count, gs). nat (sint count - sint i))")
  show "wf (measure (\<lambda>(i, count, gs). nat (sint count - sint i)))" by simp
next
  fix i count :: int32 and gs x gs' :: GracefulShutdown and oc :: outcome
  assume "i <s count"
  then have lt: "sint i < sint count" by (simp add: word_sless_alt)
  have ub: "sint count < 2 ^ 31" using sint_lt [of count] by simp
  have lb: "- (2 ^ 31) \<le> sint i" using sint_ge [of i] by simp
  have "sint (i + 1) = signed_take_bit 31 (sint i + 1)"
    by (simp add: sint_word_ariths)
  also have "\<dots> = sint i + 1"
    using lt ub lb by (intro signed_take_bit_int_eq_self) auto
  finally have "sint (i + 1) = sint i + 1" .
  with lt show "((i + 1, count, gs'), (i, count, gs))
      \<in> measure (\<lambda>(i, count, gs). nat (sint count - sint i))"
    by simp
qed

declare Done_loop.simps [simp del]

definition UnsubscribeN :: "int32 \<Rightarrow> GracefulShutdown \<Rightarrow> GracefulShutdown \<times> outcome" where
  "UnsubscribeN count gs =
     (let l = list gs in
      if l = 0 then (gs, Returned)
      else let count = (if l <s count then l else count) in
        Done_loop 0 count (list_Add (count * - 1) gs))"

subsection \<open>UnsubscribeFn and UnsubscribeFnWithTimeout\<close>

text \<open>
  \<^verbatim>\<open>cleanFn\<close> is a closure of the caller. It may do anything a Go function can do,
  including calls on the coordinator it has captured, so it acts on the coordinator
  together with the caller's own state \<open>'w\<close>. It returns, panics, or never finishes
  (\<open>None\<close>).
  \<^verbatim>\<open>
  func (gs *GracefulShutdown) UnsubscribeFn(cleanFn func()) {
      if gs.list.Load() == 0 { return }
      defer gs.Unsubscribe()
      cleanFn()
  }
  \<close>
  The deferred \<^verbatim>\<open>Unsubscribe\<close> runs when \<^verbatim>\<open>cleanFn\<close> returns and when it panics; in
  the second case the panic goes on to the caller afterwards.
\<close>

type_synonym 'w cleanFn =
  "GracefulShutdown \<times> 'w \<Rightarrow> ((GracefulShutdown \<times> 'w) \<times> outcome) option"

definition UnsubscribeFn ::
  "'w cleanFn \<Rightarrow> GracefulShutdown \<times> 'w \<Rightarrow> ((GracefulShutdown \<times> 'w) \<times> outcome) option" where
  "UnsubscribeFn cleanFn s =
     (if list (fst s) = 0 then Some (s, Returned)
      else
        (case cleanFn s of
           None \<Rightarrow> None
         | Some ((gs1, w1), oc) \<Rightarrow>
             (case Unsubscribe gs1 of
                (gs2, oc2) \<Rightarrow> Some ((gs2, w1), if oc = Panicked then Panicked else oc2))))"

text \<open>
  \<^verbatim>\<open>
  func (gs *GracefulShutdown) UnsubscribeFnWithTimeout(cleanFn func(), duration time.Duration) {
      if gs.list.Load() == 0 { return }
      defer gs.Unsubscribe()
      doneCh := make(chan struct{})
      t := time.NewTimer(duration)
      go func() { cleanFn(); close(doneCh) }()
      select {
      case <-t.C:    return
      case <-doneCh: return
      }
  }
  \<close>
  The duration is seen only through the case the \<^verbatim>\<open>select\<close> takes, which is the
  parameter \<open>race\<close>. With \<open>DoneFirst\<close> the goroutine has run \<^verbatim>\<open>cleanFn\<close> to its end; a
  \<^verbatim>\<open>cleanFn\<close> that never finishes leaves only the timer. A panic of \<^verbatim>\<open>cleanFn\<close> is a
  panic of its goroutine, which ends the program where it stands. With \<open>TimerFirst\<close>
  the call returns while the goroutine is still running: what \<^verbatim>\<open>cleanFn\<close> does
  afterwards is not part of the call.
\<close>

datatype race = TimerFirst | DoneFirst

definition UnsubscribeFnWithTimeout ::
  "'w cleanFn \<Rightarrow> race \<Rightarrow> GracefulShutdown \<times> 'w \<Rightarrow> (GracefulShutdown \<times> 'w) \<times> outcome" where
  "UnsubscribeFnWithTimeout cleanFn r s =
     (if list (fst s) = 0 then (s, Returned)
      else
        (case (r, cleanFn s) of
           (DoneFirst, Some ((gs1, w1), Returned)) \<Rightarrow>
             (case Unsubscribe gs1 of (gs2, oc2) \<Rightarrow> ((gs2, w1), oc2))
         | (DoneFirst, Some (s1, Panicked)) \<Rightarrow> (s1, Panicked)
         | _ \<Rightarrow> (case Unsubscribe (fst s) of (gs2, oc2) \<Rightarrow> ((gs2, snd s), oc2))))"

subsection \<open>Wait\<close>

text \<open>
  \<^verbatim>\<open>
  func (gs *GracefulShutdown) Wait() { gs.wg.Wait() }
  \<close>
  \<^verbatim>\<open>WaitGroup.Wait\<close> returns at once when the counter is zero; otherwise it adds the
  caller to the waiters and blocks until an \<^verbatim>\<open>Add\<close> releases them. Called with nothing
  else running, a blocked \<^verbatim>\<open>Wait\<close> never returns (\<open>None\<close>).
\<close>

definition Wait :: "GracefulShutdown \<Rightarrow> GracefulShutdown option" where
  "Wait gs = (if counter (wg gs) = 0 then Some gs else None)"

subsection \<open>Sequences of calls by one caller\<close>

text \<open>
  The four counter calls of the interface \<^verbatim>\<open>GracefulShutdowner\<close>, and a caller that
  makes them one after the other. An unrecovered panic ends the caller, so the
  sequence stops at the first call that panics.
\<close>

datatype call =
    Call_Subscribe
  | Call_SubscribeN int32
  | Call_Unsubscribe
  | Call_UnsubscribeN int32

fun do_call :: "call \<Rightarrow> GracefulShutdown \<Rightarrow> GracefulShutdown \<times> outcome" where
  "do_call Call_Subscribe gs = Subscribe gs"
| "do_call (Call_SubscribeN n) gs = SubscribeN n gs"
| "do_call Call_Unsubscribe gs = Unsubscribe gs"
| "do_call (Call_UnsubscribeN n) gs = UnsubscribeN n gs"

fun do_calls :: "call list \<Rightarrow> GracefulShutdown \<Rightarrow> GracefulShutdown \<times> outcome" where
  "do_calls [] gs = (gs, Returned)"
| "do_calls (c # cs) gs =
     (case do_call c gs of
        (gs', Returned) \<Rightarrow> do_calls cs gs'
      | (gs', Panicked) \<Rightarrow> (gs', Panicked))"




subsection \<open>Concurrent callers\<close>

text \<open>
  \<^verbatim>\<open>atomic.Int32\<close> and \<^verbatim>\<open>sync.WaitGroup\<close> make each single access atomic, and nothing
  more: between two accesses of one caller any other caller may run. A goroutine
  inside \<^verbatim>\<open>Unsubscribe\<close> or \<^verbatim>\<open>UnsubscribeN\<close> is therefore at one of the program points
  below, holding its local variables, and one step performs its next atomic access.
  \<^item> \<open>Unsubscribe_Load\<close>: before \<^verbatim>\<open>if gs.list.Load() == 0 { return }\<close>;
  \<^item> \<open>Unsubscribe_Add\<close>: before \<^verbatim>\<open>gs.list.Add(-1)\<close>;
  \<^item> \<open>Unsubscribe_Done\<close>: before \<^verbatim>\<open>gs.wg.Done()\<close>;
  \<^item> \<open>UnsubscribeN_Load count\<close>: before \<^verbatim>\<open>list := gs.list.Load()\<close>;
  \<^item> \<open>UnsubscribeN_Add count\<close>: before \<^verbatim>\<open>gs.list.Add(count * -1)\<close>, \<open>count\<close> already clamped;
  \<^item> \<open>UnsubscribeN_Loop i count\<close>: at the loop test \<^verbatim>\<open>i < count\<close>;
  \<^item> \<open>Finished oc\<close>: the call is over.
  A schedule names the goroutine that takes each step.
\<close>

datatype goroutine =
    Unsubscribe_Load
  | Unsubscribe_Add
  | Unsubscribe_Done
  | UnsubscribeN_Load int32
  | UnsubscribeN_Add int32
  | UnsubscribeN_Loop int32 int32
  | Finished outcome

fun step :: "goroutine \<Rightarrow> GracefulShutdown \<Rightarrow> goroutine \<times> GracefulShutdown" where
  "step Unsubscribe_Load gs =
     (if list gs = 0 then (Finished Returned, gs) else (Unsubscribe_Add, gs))"
| "step Unsubscribe_Add gs = (Unsubscribe_Done, list_Add (- 1) gs)"
| "step Unsubscribe_Done gs = (case wg_Done gs of (gs', oc) \<Rightarrow> (Finished oc, gs'))"
| "step (UnsubscribeN_Load count) gs =
     (let l = list gs in
      if l = 0 then (Finished Returned, gs)
      else (UnsubscribeN_Add (if l <s count then l else count), gs))"
| "step (UnsubscribeN_Add count) gs = (UnsubscribeN_Loop 0 count, list_Add (count * - 1) gs)"
| "step (UnsubscribeN_Loop i count) gs =
     (if i <s count then
        (case wg_Done gs of
           (gs', Returned) \<Rightarrow> (UnsubscribeN_Loop (i + 1) count, gs')
         | (gs', Panicked) \<Rightarrow> (Finished Panicked, gs'))
      else (Finished Returned, gs))"
| "step (Finished oc) gs = (Finished oc, gs)"

fun run_schedule ::
  "nat list \<Rightarrow> goroutine list \<times> GracefulShutdown \<Rightarrow> goroutine list \<times> GracefulShutdown" where
  "run_schedule [] c = c"
| "run_schedule (t # ts) (gos, gs) =
     (if t < length gos then
        (case step (gos ! t) gs of (g', gs') \<Rightarrow> run_schedule ts (gos[t := g'], gs'))
      else run_schedule ts (gos, gs))"

subsection \<open>WaitWithTimeout among other goroutines\<close>

text \<open>
  \<^verbatim>\<open>
  func (gs *GracefulShutdown) WaitWithTimeout(duration time.Duration) {
      timer := time.NewTimer(duration)
      doneCh := make(chan struct{})
      defer func() { <-doneCh }()
      go func() { gs.Wait(); close(doneCh) }()
      select {
      case <-timer.C:
          gs.UnsubscribeN(gs.Count())
          return
      case <-doneCh:
          return
      }
  }
  \<close>
  The call starts a goroutine of its own and runs beside the workers it waits for, so
  it is one thread of a system of threads. The runtime's \<^verbatim>\<open>Wait\<close> is
  \<^verbatim>\<open>
  func (wg *WaitGroup) Wait() {
      for {
          state := wg.state.Load()
          v := int32(state >> 32)
          if v == 0 { return }
          if wg.state.CompareAndSwap(state, state+1) {
              runtime_SemacquireWaitGroup(&wg.sema)
              if wg.state.Load() != 0 {
                  panic("sync: WaitGroup is reused before previous Wait has returned")
              }
              return
          }
      }
  }
  \<close>
  and the \<^verbatim>\<open>Add\<close> that brings the counter to zero releases the semaphore once for each
  waiter it resets. The threads share the coordinator, the semaphore \<open>sema\<close> and the
  channels that have been closed. \<open>n\<close> names the \<^verbatim>\<open>doneCh\<close> of a call.
  \<^item> \<open>Worker g\<close>: a goroutine inside \<^verbatim>\<open>Unsubscribe\<close> or \<^verbatim>\<open>UnsubscribeN\<close>, at \<open>g\<close>;
  \<^item> \<open>WaitWithTimeout_Go n\<close>: before the \<^verbatim>\<open>go\<close> statement;
  \<^item> \<open>WaitWithTimeout_Select n\<close>: at the \<^verbatim>\<open>select\<close>;
  \<^item> \<open>WaitWithTimeout_Count n\<close>: the timer case is taken, before \<^verbatim>\<open>gs.Count()\<close>;
  \<^item> \<open>WaitWithTimeout_UnsubscribeN n g\<close>: inside \<^verbatim>\<open>gs.UnsubscribeN(count)\<close>, at \<open>g\<close>;
  \<^item> \<open>WaitWithTimeout_Receive n oc\<close>: at the deferred \<^verbatim>\<open><-doneCh\<close>, the call about to
    end with \<open>oc\<close>;
  \<^item> \<open>Wait_Enter n\<close>: the started goroutine, before \<^verbatim>\<open>gs.Wait()\<close>;
  \<^item> \<open>Wait_Blocked n\<close>: registered as a waiter, blocked on the semaphore;
  \<^item> \<open>Wait_Woken n\<close>: released, before the last \<^verbatim>\<open>wg.state.Load()\<close>;
  \<^item> \<open>Close n\<close>: before \<^verbatim>\<open>close(doneCh)\<close>;
  \<^item> \<open>Ended oc\<close>: the thread is over.
  The duration is not modelled: the timer may fire at any moment. The event \<open>Timer t\<close>
  is the timer of thread \<open>t\<close> firing and its \<^verbatim>\<open>select\<close> taking that case; \<open>Run t\<close> lets
  thread \<open>t\<close> take its next step, which at the \<^verbatim>\<open>select\<close> is the \<^verbatim>\<open>doneCh\<close> case. A thread
  that cannot go on (a receive from an open channel, an empty semaphore) stays where it
  is. A panic ends the thread that raised it; that an unrecovered panic of a goroutine
  ends the whole program is not modelled.
\<close>

datatype thread =
    Worker goroutine
  | WaitWithTimeout_Go nat
  | WaitWithTimeout_Select nat
  | WaitWithTimeout_Count nat
  | WaitWithTimeout_UnsubscribeN nat goroutine
  | WaitWithTimeout_Receive nat outcome
  | Wait_Enter nat
  | Wait_Blocked nat
  | Wait_Woken nat
  | Close nat
  | Ended outcome

record shared =
  coord :: GracefulShutdown
  sema :: nat
  closed :: "nat list"

datatype event = Run nat | Timer nat

text \<open>Storing the coordinator after an access, with the releases its \<^verbatim>\<open>Add\<close> has made.\<close>

definition store :: "GracefulShutdown \<Rightarrow> shared \<Rightarrow> shared" where
  "store gs' sh =
     sh\<lparr>coord := gs', sema := sema sh + (waiters (wg (coord sh)) - waiters (wg gs'))\<rparr>"

fun thread_step :: "thread \<Rightarrow> shared \<Rightarrow> thread \<times> thread list \<times> shared" where
  "thread_step (Worker g) sh =
     (case step g (coord sh) of (g', gs') \<Rightarrow> (Worker g', [], store gs' sh))"
| "thread_step (WaitWithTimeout_Go n) sh = (WaitWithTimeout_Select n, [Wait_Enter n], sh)"
| "thread_step (WaitWithTimeout_Select n) sh =
     (if n \<in> set (closed sh) then (WaitWithTimeout_Receive n Returned, [], sh)
      else (WaitWithTimeout_Select n, [], sh))"
| "thread_step (WaitWithTimeout_Count n) sh =
     (WaitWithTimeout_UnsubscribeN n (UnsubscribeN_Load (Count (coord sh))), [], sh)"
| "thread_step (WaitWithTimeout_UnsubscribeN n (Finished oc)) sh =
     (WaitWithTimeout_Receive n oc, [], sh)"
| "thread_step (WaitWithTimeout_UnsubscribeN n g) sh =
     (case step g (coord sh) of
        (g', gs') \<Rightarrow> (WaitWithTimeout_UnsubscribeN n g', [], store gs' sh))"
| "thread_step (WaitWithTimeout_Receive n oc) sh =
     (if n \<in> set (closed sh) then (Ended oc, [], sh)
      else (WaitWithTimeout_Receive n oc, [], sh))"
| "thread_step (Wait_Enter n) sh =
     (case Wait (coord sh) of
        Some _ \<Rightarrow> (Close n, [], sh)
      | None \<Rightarrow>
          (Wait_Blocked n, [],
           sh\<lparr>coord := (coord sh)\<lparr>wg := (wg (coord sh))
              \<lparr>waiters := waiters (wg (coord sh)) + 1\<rparr>\<rparr>\<rparr>))"
| "thread_step (Wait_Blocked n) sh =
     (if 0 < sema sh then (Wait_Woken n, [], sh\<lparr>sema := sema sh - 1\<rparr>)
      else (Wait_Blocked n, [], sh))"
| "thread_step (Wait_Woken n) sh =
     (if counter (wg (coord sh)) = 0 \<and> waiters (wg (coord sh)) = 0 then (Close n, [], sh)
      else (Ended Panicked, [], sh))"
| "thread_step (Close n) sh = (Ended Returned, [], sh\<lparr>closed := n # closed sh\<rparr>)"
| "thread_step (Ended oc) sh = (Ended oc, [], sh)"

fun fire :: "thread \<Rightarrow> thread" where
  "fire (WaitWithTimeout_Select n) = WaitWithTimeout_Count n"
| "fire t = t"

fun run_events :: "event list \<Rightarrow> thread list \<times> shared \<Rightarrow> thread list \<times> shared" where
  "run_events [] c = c"
| "run_events (Run t # es) (ts, sh) =
     (if t < length ts then
        (case thread_step (ts ! t) sh of
           (t', started, sh') \<Rightarrow> run_events es (ts[t := t'] @ started, sh'))
      else run_events es (ts, sh))"
| "run_events (Timer t # es) (ts, sh) =
     (if t < length ts then run_events es (ts[t := fire (ts ! t)], sh)
      else run_events es (ts, sh))"

subsection \<open>What the specification says about the counter\<close>

text \<open>
  The specification's data model: \<open>count\<close> and the barrier's outstanding-unit count
  are kept in lockstep, and \<open>count\<close> is an integer \<open>\<ge> 0\<close>. Between two calls no
  goroutine is blocked in \<^verbatim>\<open>Wait\<close>.
\<close>

definition lockstep :: "GracefulShutdown \<Rightarrow> bool" where
  "lockstep gs = (counter (wg gs) = list gs)"

definition consistent :: "GracefulShutdown \<Rightarrow> bool" where
  "consistent gs = (lockstep gs \<and> 0 \<le>s list gs \<and> waiters (wg gs) = 0)"

text \<open>
  The specification gives \<open>Subscribe\<close> and \<open>Unsubscribe\<close> a positive integer \<open>n\<close>,
  default 1.
\<close>

fun positive :: "call \<Rightarrow> bool" where
  "positive Call_Subscribe = True"
| "positive (Call_SubscribeN n) = (0 <s n)"
| "positive Call_Unsubscribe = True"
| "positive (Call_UnsubscribeN n) = (0 <s n)"

text \<open>
  The specification's account of a sequence of calls, in unbounded integers: a
  \<open>Subscribe(n)\<close> adds \<open>n\<close>, an \<open>Unsubscribe(m)\<close> takes \<open>min m c\<close> from the count \<open>c\<close>
  available when it runs. \<open>subscribed\<close> sums the amounts subscribed and
  \<open>unsubscribed c\<close> the amounts actually unsubscribed, starting from the count \<open>c\<close>;
  \<open>peak c\<close> is the largest count reached on the way.
\<close>

fun subscribed :: "call list \<Rightarrow> int" where
  "subscribed [] = 0"
| "subscribed (Call_Subscribe # cs) = 1 + subscribed cs"
| "subscribed (Call_SubscribeN n # cs) = sint n + subscribed cs"
| "subscribed (_ # cs) = subscribed cs"

fun unsubscribed :: "int \<Rightarrow> call list \<Rightarrow> int" where
  "unsubscribed c [] = 0"
| "unsubscribed c (Call_Subscribe # cs) = unsubscribed (c + 1) cs"
| "unsubscribed c (Call_SubscribeN n # cs) = unsubscribed (c + sint n) cs"
| "unsubscribed c (Call_Unsubscribe # cs) = min 1 c + unsubscribed (c - min 1 c) cs"
| "unsubscribed c (Call_UnsubscribeN m # cs) =
     min (sint m) c + unsubscribed (c - min (sint m) c) cs"

fun peak :: "int \<Rightarrow> call list \<Rightarrow> int" where
  "peak c [] = c"
| "peak c (Call_Subscribe # cs) = max c (peak (c + 1) cs)"
| "peak c (Call_SubscribeN n # cs) = max c (peak (c + sint n) cs)"
| "peak c (Call_Unsubscribe # cs) = max c (peak (c - min 1 c) cs)"
| "peak c (Call_UnsubscribeN m # cs) = max c (peak (c - min (sint m) c) cs)"



section \<open>Properties\<close>

subsection \<open>Signed 32-bit arithmetic without wrap-around\<close>

lemma sint_succ_less: "i <s (c::int32) \<Longrightarrow> sint (i + 1) = sint i + 1"
proof -
  assume "i <s c"
  then have lt: "sint i < sint c" by (simp add: word_sless_alt)
  have ub: "sint c < 2 ^ 31" using sint_lt [of c] by simp
  have lb: "- (2 ^ 31) \<le> sint i" using sint_ge [of i] by simp
  have "sint (i + 1) = signed_take_bit 31 (sint i + 1)"
    by (simp add: sint_word_ariths)
  also have "\<dots> = sint i + 1"
    using lt ub lb by (intro signed_take_bit_int_eq_self) auto
  finally show ?thesis .
qed

lemma sint_pred_pos: "0 < sint (x::int32) \<Longrightarrow> sint (x - 1) = sint x - 1"
proof -
  assume lt: "0 < sint x"
  have ub: "sint x < 2 ^ 31" using sint_lt [of x] by simp
  have "sint (x - 1) = signed_take_bit 31 (sint x - 1)"
    by (simp add: sint_word_ariths)
  also have "\<dots> = sint x - 1"
    using lt ub by (intro signed_take_bit_int_eq_self) auto
  finally show ?thesis .
qed

lemma sint_eq_0_iff: "(sint (x::int32) = 0) = (x = 0)"
  by (metis sint_0 signed_word_eqI)

lemma wg_Done_pos:
  assumes "0 < sint (counter (wg gs))"
  shows "wg_Done gs =
    (gs\<lparr>wg := (wg gs)\<lparr>counter := counter (wg gs) - 1,
        waiters := (if sint (counter (wg gs)) = 1 then 0 else waiters (wg gs))\<rparr>\<rparr>, Returned)"
proof -
  let ?v = "counter (wg gs) - 1"
  have v: "sint ?v = sint (counter (wg gs)) - 1" using assms by (rule sint_pred_pos)
  have nneg: "\<not> ?v <s 0" using v assms by (simp add: word_sless_alt)
  have zero: "(?v = 0) = (sint (counter (wg gs)) = 1)"
    using v sint_eq_0_iff [of ?v] by auto
  have pos: "(0 <s ?v) = (sint (counter (wg gs)) \<noteq> 1)"
    using v assms by (auto simp: word_sless_alt)
  show ?thesis
    using nneg zero pos
    by (auto simp: wg_Done_def WaitGroup_Done_def WaitGroup_Add_def Let_def word_sless_alt)
qed


lemma Done_loop_run:
  "sint i \<le> sint count \<Longrightarrow> sint count - sint i \<le> sint (counter (wg gs)) \<Longrightarrow>
   Done_loop i count gs =
     (gs\<lparr>wg := (wg gs)\<lparr>counter := counter (wg gs) - (count - i),
         waiters := (if sint i < sint count \<and> sint (counter (wg gs)) = sint count - sint i
                     then 0 else waiters (wg gs))\<rparr>\<rparr>, Returned)"
proof (induction i count gs rule: Done_loop.induct)
  case (1 i count gs)
  show ?case
  proof (cases "i <s count")
    case False
    with "1.prems" have "sint i = sint count" by (simp add: word_sless_alt)
    then have "i = count" by (rule signed_word_eqI)
    then show ?thesis by (subst Done_loop.simps) simp
  next
    case True
    then have lt: "sint i < sint count" by (simp add: word_sless_alt)
    with "1.prems" have pos: "0 < sint (counter (wg gs))" by simp
    define gs' where "gs' = gs\<lparr>wg := (wg gs)\<lparr>counter := counter (wg gs) - 1,
        waiters := (if sint (counter (wg gs)) = 1 then 0 else waiters (wg gs))\<rparr>\<rparr>"
    have d: "wg_Done gs = (gs', Returned)" unfolding gs'_def using pos by (rule wg_Done_pos)
    have si: "sint (i + 1) = sint i + 1" using True by (rule sint_succ_less)
    have sc: "sint (counter (wg gs')) = sint (counter (wg gs)) - 1"
      using pos by (simp add: gs'_def sint_pred_pos)
    have ih: "Done_loop (i + 1) count gs' =
     (gs'\<lparr>wg := (wg gs')\<lparr>counter := counter (wg gs') - (count - (i + 1)),
         waiters := (if sint (i + 1) < sint count \<and> sint (counter (wg gs')) = sint count - sint (i + 1)
                     then 0 else waiters (wg gs'))\<rparr>\<rparr>, Returned)"
      using "1.IH" [OF True d [symmetric] refl] lt "1.prems" si sc by simp
    have "Done_loop i count gs = Done_loop (i + 1) count gs'"
      using True d by (subst Done_loop.simps) simp
    also note ih
    also have "gs'\<lparr>wg := (wg gs')\<lparr>counter := counter (wg gs') - (count - (i + 1)),
         waiters := (if sint (i + 1) < sint count \<and> sint (counter (wg gs')) = sint count - sint (i + 1)
                     then 0 else waiters (wg gs'))\<rparr>\<rparr>
       = gs\<lparr>wg := (wg gs)\<lparr>counter := counter (wg gs) - (count - i),
         waiters := (if sint i < sint count \<and> sint (counter (wg gs)) = sint count - sint i
                     then 0 else waiters (wg gs))\<rparr>\<rparr>"
      using lt "1.prems" si sc by (auto simp: gs'_def)
    finally show ?thesis .
  qed
qed

lemma sint_diff_le: "0 \<le> sint (b::int32) \<Longrightarrow> sint b \<le> sint a \<Longrightarrow> sint (a - b) = sint a - sint b"
proof -
  assume b: "0 \<le> sint b" and ab: "sint b \<le> sint a"
  have ub: "sint a < 2 ^ 31" using sint_lt [of a] by simp
  have "sint (a - b) = signed_take_bit 31 (sint a - sint b)"
    by (simp add: sint_word_ariths)
  also have "\<dots> = sint a - sint b"
    using b ab ub by (intro signed_take_bit_int_eq_self) auto
  finally show ?thesis .
qed

lemma sint_add_small:
  "- (2 ^ 31) \<le> sint (a::int32) + sint b \<Longrightarrow> sint a + sint b < 2 ^ 31 \<Longrightarrow> sint (a + b) = sint a + sint b"
proof -
  assume l: "- (2 ^ 31) \<le> sint a + sint b" and u: "sint a + sint b < 2 ^ 31"
  have "sint (a + b) = signed_take_bit 31 (sint a + sint b)"
    by (simp add: sint_word_ariths)
  also have "\<dots> = sint a + sint b"
    using l u by (intro signed_take_bit_int_eq_self) auto
  finally show ?thesis .
qed

lemma sint_sub_small:
  "- (2 ^ 31) \<le> sint (a::int32) - sint b \<Longrightarrow> sint a - sint b < 2 ^ 31 \<Longrightarrow> sint (a - b) = sint a - sint b"
proof -
  assume l: "- (2 ^ 31) \<le> sint a - sint b" and u: "sint a - sint b < 2 ^ 31"
  have "sint (a - b) = signed_take_bit 31 (sint a - sint b)"
    by (simp add: sint_word_ariths)
  also have "\<dots> = sint a - sint b"
    using l u by (intro signed_take_bit_int_eq_self) auto
  finally show ?thesis .
qed

lemma list_wg_Done: "list (fst (wg_Done gs)) = list gs"
  by (simp add: wg_Done_def split: prod.split)

lemma list_Done_loop: "list (fst (Done_loop i count gs)) = list gs"
proof (induction i count gs rule: Done_loop.induct)
  case (1 i count gs)
  show ?case
  proof (cases "i <s count")
    case False
    then show ?thesis by (subst Done_loop.simps) simp
  next
    case True
    obtain gs' oc where d: "wg_Done gs = (gs', oc)" by (cases "wg_Done gs")
    have l: "list gs' = list gs" using list_wg_Done [of gs] d by simp
    show ?thesis
    proof (cases oc)
      case Returned
      with "1.IH" [OF True d [symmetric]] l True d show ?thesis
        by (subst Done_loop.simps) simp
    next
      case Panicked
      with l True d show ?thesis by (subst Done_loop.simps) simp
    qed
  qed
qed

lemma Done_loop_stop: "\<not> i <s count \<Longrightarrow> Done_loop i count gs = (gs, Returned)"
  by (subst Done_loop.simps) simp

lemma list_UnsubscribeN:
  "list (fst (UnsubscribeN k gs)) =
     (if list gs = 0 then 0 else list gs - (if list gs <s k then list gs else k))"
  by (simp add: UnsubscribeN_def Let_def list_Done_loop list_Add_def)

lemma UnsubscribeN_consistent:
  assumes c: "consistent gs" and k: "0 \<le>s k"
  shows "UnsubscribeN k gs =
     (gs\<lparr>wg := (wg gs)\<lparr>counter := list gs - (if list gs <s k then list gs else k)\<rparr>,
         list := list gs - (if list gs <s k then list gs else k)\<rparr>, Returned)"
proof (cases "list gs = 0")
  case True
  have "gs\<lparr>wg := (wg gs)\<lparr>counter := list gs\<rparr>, list := list gs\<rparr> = gs"
    using c by (simp add: consistent_def lockstep_def)
  with True k show ?thesis
    by (auto simp: UnsubscribeN_def word_sless_alt word_sle_eq sint_eq_0_iff)
next
  case False
  define m where "m = (if list gs <s k then list gs else k)"
  have l0: "0 \<le> sint (list gs)" using c by (simp add: consistent_def word_sle_eq)
  have k0: "0 \<le> sint k" using k by (simp add: word_sle_eq)
  have m0: "0 \<le> sint m" and ml: "sint m \<le> sint (list gs)"
    using l0 k0 by (auto simp: m_def word_sless_alt)
  have cnt: "counter (wg gs) = list gs" and w: "waiters (wg gs) = 0"
    using c by (simp_all add: consistent_def lockstep_def)
  have "Done_loop 0 m (list_Add (m * - 1) gs) =
     ((list_Add (m * - 1) gs)\<lparr>wg := (wg gs)\<lparr>counter := list gs - (m - 0),
         waiters := 0\<rparr>\<rparr>, Returned)"
    using Done_loop_run [of 0 m "list_Add (m * - 1) gs"] m0 ml cnt w
    by (simp add: list_Add_def)
  then show ?thesis
    using False w by (simp add: UnsubscribeN_def Let_def m_def [symmetric] list_Add_def)
qed

subsection \<open>Unsubscribing more than is subscribed\<close>

text \<open>
  Claim C1. In every state of the coordinator and for every positive \<open>k\<close> that
  exceeds \<^verbatim>\<open>Count()\<close>, \<^verbatim>\<open>UnsubscribeN(k)\<close> leaves \<^verbatim>\<open>Count()\<close> at exactly 0, never
  negative. This holds whether or not the call panics. When the counter and the
  barrier were in lockstep, the decrement is clamped to the available count: the
  barrier is decremented by that count, down to zero, and the call returns.
\<close>

theorem UnsubscribeN_exceeding_Count:
  assumes "0 <s k" and "Count gs <s k"
  shows "Count (fst (UnsubscribeN k gs)) = 0
    \<and> \<not> Count (fst (UnsubscribeN k gs)) <s 0
    \<and> (consistent gs \<longrightarrow>
         UnsubscribeN k gs = (\<lparr>wg = \<lparr>counter = 0, waiters = 0\<rparr>, list = 0\<rparr>, Returned))"
proof -
  have zero: "Count (fst (UnsubscribeN k gs)) = 0"
    using assms(2) by (simp add: Count_def list_UnsubscribeN)
  have "UnsubscribeN k gs = (\<lparr>wg = \<lparr>counter = 0, waiters = 0\<rparr>, list = 0\<rparr>, Returned)"
    if c: "consistent gs"
  proof -
    have k0: "0 \<le>s k" using assms(1) by (simp add: word_sless_alt word_sle_eq)
    have w: "waiters (wg gs) = 0" using c by (simp add: consistent_def)
    show ?thesis
      using UnsubscribeN_consistent [OF c k0] assms(2) w by (simp add: Count_def)
  qed
  with zero show ?thesis by simp
qed

theorem UnsubscribeN_exceeding_Count_witness:
  "0 <s (10::int32) \<and> Count (fst (SubscribeN 3 New)) <s 10 \<and> consistent (fst (SubscribeN 3 New))
   \<and> Count (fst (UnsubscribeN 10 (fst (SubscribeN 3 New)))) = 0
   \<and> UnsubscribeN 10 (fst (SubscribeN 3 New)) =
       (\<lparr>wg = \<lparr>counter = 0, waiters = 0\<rparr>, list = 0\<rparr>, Returned)"
proof -
  have h1: "0 <s (10::int32)" by (simp add: word_sless_alt)
  have h2: "Count (fst (SubscribeN 3 New)) <s 10" by code_simp
  have h3: "consistent (fst (SubscribeN 3 New))" by code_simp
  from UnsubscribeN_exceeding_Count [OF h1 h2] h1 h2 h3 show ?thesis by blast
qed

subsection \<open>Unsubscribing on an empty coordinator\<close>

text \<open>
  Claim C5. On a coordinator whose \<^verbatim>\<open>Count()\<close> is 0, \<^verbatim>\<open>Unsubscribe()\<close> and
  \<^verbatim>\<open>UnsubscribeN(k)\<close>, for every \<open>k\<close>, return without a panic and leave the whole
  state as it was: \<^verbatim>\<open>Count()\<close> stays 0 and the barrier is not touched.
\<close>

theorem Unsubscribe_on_empty:
  "Count gs = 0 \<Longrightarrow> Unsubscribe gs = (gs, Returned) \<and> UnsubscribeN k gs = (gs, Returned)"
  by (simp add: Count_def Unsubscribe_def UnsubscribeN_def)

theorem Unsubscribe_on_empty_witness:
  "Count New = 0 \<and> Unsubscribe New = (New, Returned) \<and> UnsubscribeN 10 New = (New, Returned)"
proof -
  have h: "Count New = 0" by (simp add: Count_def New_def)
  from Unsubscribe_on_empty [OF h, of 10] h show ?thesis by simp
qed

text \<open>
  Claim C7. On a coordinator whose \<^verbatim>\<open>Count()\<close> is 0, \<^verbatim>\<open>UnsubscribeFn(f)\<close> and
  \<^verbatim>\<open>UnsubscribeFnWithTimeout(f, d)\<close> return at once with the coordinator and the
  caller's state unchanged, whatever \<open>f\<close> would do: \<open>f\<close> is not invoked and
  \<^verbatim>\<open>Count()\<close> stays 0. In the witness \<open>f\<close> sets a flag, and the flag is still
  false afterwards.
\<close>

theorem UnsubscribeFn_on_empty:
  "Count (fst s) = 0 \<Longrightarrow>
     UnsubscribeFn f s = Some (s, Returned) \<and> UnsubscribeFnWithTimeout f r s = (s, Returned)"
  by (simp add: Count_def UnsubscribeFn_def UnsubscribeFnWithTimeout_def)

theorem UnsubscribeFn_on_empty_witness:
  "Count (fst (New, False)) = 0
   \<and> UnsubscribeFn (\<lambda>(gs, flag). Some ((gs, True), Returned)) (New, False)
       = Some ((New, False), Returned)
   \<and> UnsubscribeFnWithTimeout (\<lambda>(gs, flag). Some ((gs, True), Returned)) DoneFirst (New, False)
       = ((New, False), Returned)"
proof -
  have h: "Count (fst (New, False)) = 0" by (simp add: Count_def New_def)
  from UnsubscribeFn_on_empty [OF h, of "\<lambda>(gs, flag). Some ((gs, True), Returned)" DoneFirst] h
  show ?thesis by simp
qed

subsection \<open>Unsubscribe and UnsubscribeN(1)\<close>

lemma Done_loop_once: "Done_loop 0 1 gs = wg_Done gs"
proof -
  have one: "(0::int32) <s 1" by (simp add: word_sless_alt)
  have stop: "Done_loop (0 + 1) 1 g = (g, Returned)" for g
    by (rule Done_loop_stop) simp
  show ?thesis
    using one stop by (subst Done_loop.simps) (simp split: prod.split outcome.split)
qed

lemma Unsubscribe_as_UnsubscribeN:
  assumes "0 \<le> sint (list gs)"
  shows "Unsubscribe gs = UnsubscribeN 1 gs"
proof (cases "list gs = 0")
  case True
  then show ?thesis by (simp add: Unsubscribe_def UnsubscribeN_def)
next
  case False
  with assms have "0 < sint (list gs)" using sint_eq_0_iff [of "list gs"] by linarith
  then have "\<not> list gs <s 1" by (simp add: word_sless_alt)
  with False show ?thesis
    by (simp add: Unsubscribe_def UnsubscribeN_def Done_loop_once)
qed

text \<open>
  Claim C9, as amended. From every state whose \<^verbatim>\<open>Count()\<close> is not negative,
  \<^verbatim>\<open>Unsubscribe()\<close> and \<^verbatim>\<open>UnsubscribeN(1)\<close> leave the same counter and the same barrier
  and end the same way: nothing at count 0, and otherwise one decrement of the counter
  followed by one \<^verbatim>\<open>Done\<close>.
\<close>

theorem Unsubscribe_eq_UnsubscribeN_1:
  "0 \<le>s Count gs \<Longrightarrow> Unsubscribe gs = UnsubscribeN 1 gs"
  by (rule Unsubscribe_as_UnsubscribeN) (simp add: Count_def word_sle_eq)

theorem Unsubscribe_eq_UnsubscribeN_1_witness:
  "0 \<le>s Count (fst (SubscribeN 3 New))
   \<and> Unsubscribe (fst (SubscribeN 3 New)) = UnsubscribeN 1 (fst (SubscribeN 3 New))
   \<and> UnsubscribeN 1 (fst (SubscribeN 3 New)) =
       (\<lparr>wg = \<lparr>counter = 2, waiters = 0\<rparr>, list = 2\<rparr>, Returned)"
proof -
  have h: "0 \<le>s Count (fst (SubscribeN 3 New))" by code_simp
  have v: "UnsubscribeN 1 (fst (SubscribeN 3 New)) =
       (\<lparr>wg = \<lparr>counter = 2, waiters = 0\<rparr>, list = 2\<rparr>, Returned)" by code_simp
  from Unsubscribe_eq_UnsubscribeN_1 [OF h] h v show ?thesis by blast
qed

text \<open>
  Claim C9 as it is stated, for every state, fails where the counter is negative.
  \<^verbatim>\<open>Subscribe(); UnsubscribeN(math.MinInt32)\<close> on a fresh coordinator returns with
  the counter at \<open>-2147483647\<close> and the barrier at 1. There \<^verbatim>\<open>Unsubscribe()\<close> takes one
  from both, while \<^verbatim>\<open>UnsubscribeN(1)\<close> clamps its argument to the negative counter, sets
  the counter to 0 and leaves the barrier alone.
\<close>

theorem Unsubscribe_differs_from_UnsubscribeN_1:
  "do_calls [Call_Subscribe, Call_UnsubscribeN (- 2147483648)] New =
     (\<lparr>wg = \<lparr>counter = 1, waiters = 0\<rparr>, list = - 2147483647\<rparr>, Returned)
   \<and> Unsubscribe \<lparr>wg = \<lparr>counter = 1, waiters = 0\<rparr>, list = - 2147483647\<rparr> =
     (\<lparr>wg = \<lparr>counter = 0, waiters = 0\<rparr>, list = - 2147483648\<rparr>, Returned)
   \<and> UnsubscribeN 1 \<lparr>wg = \<lparr>counter = 1, waiters = 0\<rparr>, list = - 2147483647\<rparr> =
     (\<lparr>wg = \<lparr>counter = 1, waiters = 0\<rparr>, list = 0\<rparr>, Returned)
   \<and> Unsubscribe \<lparr>wg = \<lparr>counter = 1, waiters = 0\<rparr>, list = - 2147483647\<rparr>
     \<noteq> UnsubscribeN 1 \<lparr>wg = \<lparr>counter = 1, waiters = 0\<rparr>, list = - 2147483647\<rparr>"
  by code_simp

subsection \<open>UnsubscribeN with an argument that is not positive\<close>

text \<open>
  Claim C10, as amended. With \<^verbatim>\<open>Count() > 0\<close> and \<open>k \<le> 0\<close>, \<^verbatim>\<open>UnsubscribeN(k)\<close>
  returns having changed nothing but the counter, which becomes \<open>list - k\<close> in 32-bit
  arithmetic: the barrier is not decremented. When \<open>Count() - k\<close> does not exceed
  \<open>2^31 - 1\<close> the new count is exactly \<open>Count() - k\<close>, so \<open>k = 0\<close> leaves it unchanged
  and a negative \<open>k\<close> increases it.
\<close>

theorem UnsubscribeN_nonpositive:
  assumes "0 <s Count gs" and "k \<le>s 0"
  shows "UnsubscribeN k gs = (gs\<lparr>list := list gs - k\<rparr>, Returned)
    \<and> (sint (Count gs) - sint k < 2 ^ 31 \<longrightarrow>
         sint (Count (fst (UnsubscribeN k gs))) = sint (Count gs) - sint k)"
proof -
  have pos: "0 < sint (list gs)" using assms(1) by (simp add: Count_def word_sless_alt)
  have k: "sint k \<le> 0" using assms(2) by (simp add: word_sle_eq)
  have ne: "list gs \<noteq> 0" using pos by auto
  have nlt: "\<not> list gs <s k" using pos k by (simp add: word_sless_alt)
  have stop: "\<not> 0 <s k" using k by (simp add: word_sless_alt)
  have eq: "UnsubscribeN k gs = (gs\<lparr>list := list gs - k\<rparr>, Returned)"
    using ne nlt stop by (simp add: UnsubscribeN_def Done_loop_stop list_Add_def)
  have "sint (list gs - k) = sint (list gs) - sint k" if "sint (list gs) - sint k < 2 ^ 31"
    using that pos k by (intro sint_sub_small) auto
  with eq show ?thesis by (simp add: Count_def)
qed

theorem UnsubscribeN_nonpositive_witness:
  "0 <s Count (fst (SubscribeN 3 New)) \<and> (- 2 :: int32) \<le>s 0
   \<and> UnsubscribeN (- 2) (fst (SubscribeN 3 New)) =
       (\<lparr>wg = \<lparr>counter = 3, waiters = 0\<rparr>, list = 5\<rparr>, Returned)
   \<and> sint (Count (fst (UnsubscribeN (- 2) (fst (SubscribeN 3 New))))) = 5"
proof -
  have h1: "0 <s Count (fst (SubscribeN 3 New))" by code_simp
  have h2: "(- 2 :: int32) \<le>s 0" by code_simp
  have s: "fst (SubscribeN 3 New) = \<lparr>wg = \<lparr>counter = 3, waiters = 0\<rparr>, list = 3\<rparr>" by code_simp
  have b: "sint (Count (fst (SubscribeN 3 New))) - sint (- 2 :: int32) < 2 ^ 31" by code_simp
  have v: "sint (Count (fst (SubscribeN 3 New))) - sint (- 2 :: int32) = 5" by code_simp
  from UnsubscribeN_nonpositive [OF h1 h2] h1 h2 b v show ?thesis by (simp add: s Count_def)
qed

text \<open>
  Claim C10 as it is stated fails where \<open>Count() - k\<close> leaves the 32-bit range. On
  the coordinator after one \<^verbatim>\<open>Subscribe()\<close>, \<^verbatim>\<open>UnsubscribeN(math.MinInt32)\<close> computes
  \<^verbatim>\<open>count * -1\<close>, which wraps to \<^verbatim>\<open>math.MinInt32\<close> again, and adds it: the count goes
  from 1 to \<open>-2147483647\<close>. It has neither changed by \<open>-k = 2147483648\<close> nor increased.
\<close>

theorem UnsubscribeN_negative_wraps:
  "0 <s Count (fst (Subscribe New)) \<and> (- 2147483648 :: int32) \<le>s 0
   \<and> sint (Count (fst (Subscribe New))) = 1
   \<and> sint (- 2147483648 :: int32) = - 2147483648
   \<and> sint (Count (fst (UnsubscribeN (- 2147483648) (fst (Subscribe New))))) = - 2147483647"
  by code_simp

subsection \<open>Calls on a consistent coordinator\<close>

lemma counter_WaitGroup_Add: "counter (fst (WaitGroup_Add d g)) = counter g + d"
proof -
  have "counter g + d = 0" if "\<not> counter g + d <s 0" "\<not> 0 <s counter g + d"
    using that by (intro signed_word_eqI) (simp add: word_sless_alt)
  then show ?thesis by (auto simp: WaitGroup_Add_def Let_def)
qed



lemma SubscribeN_fits:
  assumes c: "consistent gs" and n: "0 \<le> sint n" and b: "sint (list gs) + sint n < 2 ^ 31"
  shows "\<exists>gs'. SubscribeN n gs = (gs', Returned) \<and> consistent gs'
           \<and> sint (list gs') = sint (list gs) + sint n"
proof -
  have l0: "0 \<le> sint (list gs)" using c by (simp add: consistent_def word_sle_eq)
  have s: "sint (list gs + n) = sint (list gs) + sint n"
    using l0 n b by (intro sint_add_small) auto
  have cnt: "counter (wg gs) = list gs" and w: "waiters (wg gs) = 0"
    using c by (simp_all add: consistent_def lockstep_def)
  have nneg: "\<not> list gs + n <s 0" using s l0 n by (simp add: word_sless_alt)
  have r: "SubscribeN n gs =
     (gs\<lparr>list := list gs + n, wg := (wg gs)\<lparr>counter := list gs + n\<rparr>\<rparr>, Returned)"
    using cnt w nneg
    by (simp add: SubscribeN_def wg_Add_def list_Add_def WaitGroup_Add_def Let_def)
  have "consistent (gs\<lparr>list := list gs + n, wg := (wg gs)\<lparr>counter := list gs + n\<rparr>\<rparr>)"
    using w s l0 n by (simp add: consistent_def lockstep_def word_sle_eq)
  with r s show ?thesis by simp
qed

lemma UnsubscribeN_clamps:
  assumes c: "consistent gs" and k: "0 \<le> sint k"
  shows "\<exists>gs'. UnsubscribeN k gs = (gs', Returned) \<and> consistent gs'
           \<and> sint (list gs') = sint (list gs) - min (sint k) (sint (list gs))"
proof -
  define m where "m = (if list gs <s k then list gs else k)"
  have l0: "0 \<le> sint (list gs)" using c by (simp add: consistent_def word_sle_eq)
  have m0: "0 \<le> sint m" and ml: "sint m \<le> sint (list gs)"
    and mm: "sint m = min (sint k) (sint (list gs))"
    using l0 k by (auto simp: m_def word_sless_alt)
  have s: "sint (list gs - m) = sint (list gs) - sint m" using m0 ml by (rule sint_diff_le)
  have k': "0 \<le>s k" using k by (simp add: word_sle_eq)
  have w: "waiters (wg gs) = 0" using c by (simp add: consistent_def)
  have r: "UnsubscribeN k gs =
     (gs\<lparr>wg := (wg gs)\<lparr>counter := list gs - m\<rparr>, list := list gs - m\<rparr>, Returned)"
    using UnsubscribeN_consistent [OF c k'] by (simp add: m_def)
  have "consistent (gs\<lparr>wg := (wg gs)\<lparr>counter := list gs - m\<rparr>, list := list gs - m\<rparr>)"
    using w s m0 ml by (simp add: consistent_def lockstep_def word_sle_eq)
  with r s mm show ?thesis by simp
qed

subsection \<open>Sequences of Subscribe and Unsubscribe calls\<close>

lemma peak_ge: "c \<le> peak c cs"
  by (induction c cs rule: peak.induct) auto

lemma peak_take: "peak c (take n cs) \<le> peak c cs"
proof (induction c cs arbitrary: n rule: peak.induct)
  case (1 c)
  then show ?case by simp
next
  case (2 c cs)
  show ?case using "2.IH" [of "n - 1"] by (cases n) (auto simp: max_def)
next
  case (3 c m cs)
  show ?case using "3.IH" [of "n - 1"] by (cases n) (auto simp: max_def)
next
  case (4 c cs)
  show ?case using "4.IH" [of "n - 1"] by (cases n) (auto simp: max_def)
next
  case (5 c m cs)
  show ?case using "5.IH" [of "n - 1"] by (cases n) (auto simp: max_def)
qed

lemma do_calls_spec:
  "consistent gs \<Longrightarrow> list_all positive cs \<Longrightarrow> peak (sint (list gs)) cs < 2 ^ 31 \<Longrightarrow>
   \<exists>gs'. do_calls cs gs = (gs', Returned) \<and> consistent gs'
     \<and> sint (list gs') = sint (list gs) + subscribed cs - unsubscribed (sint (list gs)) cs"
proof (induction cs arbitrary: gs)
  case Nil
  then show ?case by simp
next
  case (Cons c cs)
  have l0: "0 \<le> sint (list gs)" using Cons.prems(1) by (simp add: consistent_def word_sle_eq)
  show ?case
  proof (cases c)
    case Call_Subscribe
    have pk: "peak (sint (list gs) + 1) cs < 2 ^ 31"
      using Cons.prems(3) Call_Subscribe by simp
    then have b: "sint (list gs) + sint (1::int32) < 2 ^ 31"
      using peak_ge [of "sint (list gs) + 1" cs] by simp
    obtain gs1 where g: "SubscribeN 1 gs = (gs1, Returned)" "consistent gs1"
      "sint (list gs1) = sint (list gs) + 1"
      using SubscribeN_fits [OF Cons.prems(1) _ b] by auto
    obtain gs' where "do_calls cs gs1 = (gs', Returned)" "consistent gs'"
      "sint (list gs') = sint (list gs1) + subscribed cs - unsubscribed (sint (list gs1)) cs"
      using Cons.IH [OF g(2)] Cons.prems(2) pk g(3) by auto
    then show ?thesis
      using g Call_Subscribe by (simp add: Subscribe_def SubscribeN_def)
  next
    case (Call_SubscribeN n)
    have n0: "0 \<le> sint n" using Cons.prems(2) Call_SubscribeN by (simp add: word_sless_alt)
    have pk: "peak (sint (list gs) + sint n) cs < 2 ^ 31"
      using Cons.prems(3) Call_SubscribeN by simp
    then have b: "sint (list gs) + sint n < 2 ^ 31"
      using peak_ge [of "sint (list gs) + sint n" cs] by simp
    obtain gs1 where g: "SubscribeN n gs = (gs1, Returned)" "consistent gs1"
      "sint (list gs1) = sint (list gs) + sint n"
      using SubscribeN_fits [OF Cons.prems(1) n0 b] by auto
    obtain gs' where "do_calls cs gs1 = (gs', Returned)" "consistent gs'"
      "sint (list gs') = sint (list gs1) + subscribed cs - unsubscribed (sint (list gs1)) cs"
      using Cons.IH [OF g(2)] Cons.prems(2) pk g(3) by auto
    then show ?thesis
      using g Call_SubscribeN by simp
  next
    case Call_Unsubscribe
    have pk: "peak (sint (list gs) - min 1 (sint (list gs))) cs < 2 ^ 31"
      using Cons.prems(3) Call_Unsubscribe by simp
    obtain gs1 where g: "UnsubscribeN 1 gs = (gs1, Returned)" "consistent gs1"
      "sint (list gs1) = sint (list gs) - min 1 (sint (list gs))"
      using UnsubscribeN_clamps [OF Cons.prems(1), of 1] by auto
    obtain gs' where "do_calls cs gs1 = (gs', Returned)" "consistent gs'"
      "sint (list gs') = sint (list gs1) + subscribed cs - unsubscribed (sint (list gs1)) cs"
      using Cons.IH [OF g(2)] Cons.prems(2) pk g(3) by auto
    then show ?thesis
      using g Call_Unsubscribe Unsubscribe_as_UnsubscribeN [OF l0] by simp
  next
    case (Call_UnsubscribeN k)
    have k0: "0 \<le> sint k" using Cons.prems(2) Call_UnsubscribeN by (simp add: word_sless_alt)
    have pk: "peak (sint (list gs) - min (sint k) (sint (list gs))) cs < 2 ^ 31"
      using Cons.prems(3) Call_UnsubscribeN by simp
    obtain gs1 where g: "UnsubscribeN k gs = (gs1, Returned)" "consistent gs1"
      "sint (list gs1) = sint (list gs) - min (sint k) (sint (list gs))"
      using UnsubscribeN_clamps [OF Cons.prems(1) k0] by auto
    obtain gs' where "do_calls cs gs1 = (gs', Returned)" "consistent gs'"
      "sint (list gs') = sint (list gs1) + subscribed cs - unsubscribed (sint (list gs1)) cs"
      using Cons.IH [OF g(2)] Cons.prems(2) pk g(3) by auto
    then show ?thesis
      using g Call_UnsubscribeN by simp
  qed
qed

lemma consistent_New: "consistent New"
  by (simp add: consistent_def lockstep_def New_def word_sle_eq)

text \<open>
  Claim C4, as amended. Take a finite sequence of \<^verbatim>\<open>Subscribe\<close>, \<^verbatim>\<open>SubscribeN(n)\<close>,
  \<^verbatim>\<open>Unsubscribe\<close> and \<^verbatim>\<open>UnsubscribeN(m)\<close> calls with positive arguments, made one after
  the other on a fresh coordinator, in which the count as the specification computes
  it never exceeds \<open>2^31 - 1\<close>. Then after every prefix of the sequence each call has
  returned, \<^verbatim>\<open>Count()\<close> is not negative, and \<^verbatim>\<open>Count()\<close> is the sum of the amounts
  subscribed minus the sum of the amounts actually unsubscribed, each unsubscribe
  clamped to the count available when it ran.
\<close>

theorem Count_of_call_sequence:
  assumes "list_all positive cs" and "peak 0 cs < 2 ^ 31"
    and "do_calls (take n cs) New = (gs, oc)"
  shows "oc = Returned \<and> 0 \<le> sint (Count gs)
    \<and> sint (Count gs) = subscribed (take n cs) - unsubscribed 0 (take n cs)"
proof -
  have p: "list_all positive (take n cs)"
    using assms(1) by (auto simp: list_all_iff dest: in_set_takeD)
  have b: "peak (sint (list New)) (take n cs) < 2 ^ 31"
    using peak_take [of 0 n cs] assms(2) by (simp add: New_def)
  obtain gs' where r: "do_calls (take n cs) New = (gs', Returned)" "consistent gs'"
    "sint (list gs') = sint (list New) + subscribed (take n cs)
        - unsubscribed (sint (list New)) (take n cs)"
    using do_calls_spec [OF consistent_New p b] by auto
  have "0 \<le> sint (list gs')" using r(2) by (simp add: consistent_def word_sle_eq)
  with r assms(3) show ?thesis by (simp add: Count_def New_def)
qed

theorem Count_of_call_sequence_witness:
  "list_all positive
     [Call_SubscribeN 3, Call_UnsubscribeN 10, Call_Subscribe, Call_Subscribe, Call_Unsubscribe]
   \<and> peak 0
     [Call_SubscribeN 3, Call_UnsubscribeN 10, Call_Subscribe, Call_Subscribe, Call_Unsubscribe]
       < 2 ^ 31
   \<and> do_calls (take 4
     [Call_SubscribeN 3, Call_UnsubscribeN 10, Call_Subscribe, Call_Subscribe, Call_Unsubscribe])
       New = (\<lparr>wg = \<lparr>counter = 2, waiters = 0\<rparr>, list = 2\<rparr>, Returned)
   \<and> sint (Count \<lparr>wg = \<lparr>counter = 2, waiters = 0\<rparr>, list = 2\<rparr>) =
       subscribed (take 4
     [Call_SubscribeN 3, Call_UnsubscribeN 10, Call_Subscribe, Call_Subscribe, Call_Unsubscribe])
       - unsubscribed 0 (take 4
     [Call_SubscribeN 3, Call_UnsubscribeN 10, Call_Subscribe, Call_Subscribe, Call_Unsubscribe])"
proof -
  let ?cs = "[Call_SubscribeN 3, Call_UnsubscribeN 10, Call_Subscribe, Call_Subscribe,
    Call_Unsubscribe]"
  have h1: "list_all positive ?cs" by code_simp
  have h2: "peak 0 ?cs < 2 ^ 31" by code_simp
  have h3: "do_calls (take 4 ?cs) New =
    (\<lparr>wg = \<lparr>counter = 2, waiters = 0\<rparr>, list = 2\<rparr>, Returned)" by code_simp
  from Count_of_call_sequence [OF h1 h2 h3] h1 h2 h3 show ?thesis by blast
qed

text \<open>
  Claim C4 as it is stated, for every sequence with positive arguments, fails where
  the counter overflows. \<^verbatim>\<open>SubscribeN(math.MaxInt32)\<close> followed by \<^verbatim>\<open>Subscribe()\<close> wraps
  the counter to \<open>-2147483648\<close>; the \<^verbatim>\<open>WaitGroup\<close> then panics on its own negative
  counter, and \<^verbatim>\<open>Count()\<close> is negative.
\<close>

theorem Count_negative_after_overflow:
  "positive (Call_SubscribeN 2147483647) \<and> positive Call_Subscribe
   \<and> do_calls [Call_SubscribeN 2147483647, Call_Subscribe] New =
       (\<lparr>wg = \<lparr>counter = - 2147483648, waiters = 0\<rparr>, list = - 2147483648\<rparr>, Panicked)
   \<and> sint (Count (fst (do_calls [Call_SubscribeN 2147483647, Call_Subscribe] New)))
       = - 2147483648"
  by code_simp

subsection \<open>The counter and the barrier in lockstep\<close>

lemma Unsubscribe_consistent:
  assumes "consistent gs"
  shows "\<exists>gs'. Unsubscribe gs = (gs', Returned) \<and> consistent gs'"
proof -
  have l0: "0 \<le> sint (list gs)" using assms by (simp add: consistent_def word_sle_eq)
  show ?thesis
    using UnsubscribeN_clamps [OF assms, of 1] Unsubscribe_as_UnsubscribeN [OF l0] by auto
qed

lemma counter_wg_Done: "counter (wg (fst (wg_Done gs))) = counter (wg gs) - 1"
  using counter_WaitGroup_Add [of "- 1" "wg gs"]
  by (auto simp: wg_Done_def WaitGroup_Done_def split: prod.split)










subsection \<open>UnsubscribeFn with a count that is not zero\<close>

text \<open>
  Claim C6, as amended. Let \<^verbatim>\<open>UnsubscribeFn(cleanFn)\<close> be called with a count that is
  not zero, in particular with \<^verbatim>\<open>Count() > 0\<close>, and let \<^verbatim>\<open>cleanFn\<close> finish, by
  returning or by panicking, whatever it has done. Then the call has run \<^verbatim>\<open>cleanFn\<close>
  once, in the caller (the caller's state is the one \<^verbatim>\<open>cleanFn\<close> left), and after it
  one \<^verbatim>\<open>Unsubscribe()\<close> on the coordinator as \<^verbatim>\<open>cleanFn\<close> left it; a panic of
  \<^verbatim>\<open>cleanFn\<close> is the outcome of the call. When \<^verbatim>\<open>cleanFn\<close> left the count at zero that
  \<^verbatim>\<open>Unsubscribe()\<close> changes nothing. Otherwise the count and the barrier are each one
  less than \<^verbatim>\<open>cleanFn\<close> left them, which for a \<^verbatim>\<open>cleanFn\<close> that does not touch the
  coordinator is one less than before the call. A coordinator that \<^verbatim>\<open>cleanFn\<close> left
  consistent is consistent afterwards.
\<close>

theorem UnsubscribeFn_unsubscribes_once:
  assumes "Count gs \<noteq> 0" and "cleanFn (gs, w) = Some ((gs1, w1), oc)"
  shows "\<exists>gs2 oc2. UnsubscribeFn cleanFn (gs, w) = Some ((gs2, w1), oc2)
     \<and> (oc = Panicked \<longrightarrow> oc2 = Panicked)
     \<and> (Count gs1 = 0 \<longrightarrow> gs2 = gs1 \<and> oc2 = oc)
     \<and> (Count gs1 \<noteq> 0 \<longrightarrow>
          Count gs2 = Count gs1 - 1 \<and> counter (wg gs2) = counter (wg gs1) - 1)
     \<and> (0 <s Count gs1 \<longrightarrow> sint (Count gs2) = sint (Count gs1) - 1)
     \<and> (consistent gs1 \<longrightarrow> consistent gs2 \<and> oc2 = oc)"
proof -
  obtain gs2 ocu where u: "Unsubscribe gs1 = (gs2, ocu)" by (cases "Unsubscribe gs1")
  define oc2 where "oc2 = (if oc = Panicked then Panicked else ocu)"
  have r: "UnsubscribeFn cleanFn (gs, w) = Some ((gs2, w1), oc2)"
    using assms u by (simp add: UnsubscribeFn_def Count_def oc2_def)
  have p: "oc = Panicked \<longrightarrow> oc2 = Panicked" by (simp add: oc2_def)
  have z: "gs2 = gs1 \<and> oc2 = oc" if "Count gs1 = 0"
    using that u by (cases oc) (auto simp: Unsubscribe_def Count_def oc2_def)
  have d: "Count gs2 = Count gs1 - 1 \<and> counter (wg gs2) = counter (wg gs1) - 1"
    if "Count gs1 \<noteq> 0"
  proof -
    from that u have e: "wg_Done (list_Add (- 1) gs1) = (gs2, ocu)"
      by (simp add: Unsubscribe_def Count_def)
    show ?thesis
      using list_wg_Done [of "list_Add (- 1) gs1"] counter_wg_Done [of "list_Add (- 1) gs1"] e
      by (simp add: list_Add_def Count_def)
  qed
  have i: "sint (Count gs2) = sint (Count gs1) - 1" if "0 <s Count gs1"
  proof -
    from that have pos: "0 < sint (Count gs1)" by (simp add: word_sless_alt)
    then have "Count gs1 \<noteq> 0" by auto
    with d have "Count gs2 = Count gs1 - 1" by simp
    with sint_pred_pos [OF pos] show ?thesis by simp
  qed
  have k: "consistent gs2 \<and> oc2 = oc" if "consistent gs1"
    using Unsubscribe_consistent [OF that] u by (cases oc) (auto simp: oc2_def)
  from r p z d i k show ?thesis by blast
qed

theorem UnsubscribeFn_unsubscribes_once_witness:
  "Count (fst (Subscribe New)) \<noteq> 0
   \<and> (\<lambda>(g, n). Some ((g, Suc n), Panicked)) (fst (Subscribe New), 0::nat)
       = Some ((fst (Subscribe New), Suc 0), Panicked)
   \<and> UnsubscribeFn (\<lambda>(g, n). Some ((g, Suc n), Panicked)) (fst (Subscribe New), 0::nat)
       = Some ((\<lparr>wg = \<lparr>counter = 0, waiters = 0\<rparr>, list = 0\<rparr>, Suc 0), Panicked)"
proof -
  let ?f = "\<lambda>(g::GracefulShutdown, n::nat). Some ((g, Suc n), Panicked)"
  have h1: "Count (fst (Subscribe New)) \<noteq> 0" by code_simp
  have h2: "?f (fst (Subscribe New), 0) = Some ((fst (Subscribe New), Suc 0), Panicked)"
    by simp
  have h3: "consistent (fst (Subscribe New))" by code_simp
  have v: "fst (Subscribe New) = \<lparr>wg = \<lparr>counter = 1, waiters = 0\<rparr>, list = 1\<rparr>" by code_simp
  obtain gs2 oc2 where
    r: "UnsubscribeFn ?f (fst (Subscribe New), 0) = Some ((gs2, Suc 0), oc2)"
    and d: "Count gs2 = Count (fst (Subscribe New)) - 1"
    and c: "counter (wg gs2) = counter (wg (fst (Subscribe New))) - 1"
    and p: "oc2 = Panicked" and k: "consistent gs2"
    using UnsubscribeFn_unsubscribes_once
      [of "fst (Subscribe New)" ?f 0 "fst (Subscribe New)" "Suc 0" Panicked, OF h1 h2] h1 h3
    by auto
  have "list gs2 = 0" using d v by (simp add: Count_def)
  moreover have "counter (wg gs2) = 0" using c v by simp
  moreover have "waiters (wg gs2) = 0" using k by (simp add: consistent_def)
  ultimately have "gs2 = \<lparr>wg = \<lparr>counter = 0, waiters = 0\<rparr>, list = 0\<rparr>"
    by (cases gs2, cases "wg gs2") simp
  with r p h1 h2 show ?thesis by simp
qed

text \<open>
  Claim C6 as it is stated, for every call with \<^verbatim>\<open>Count() > 0\<close>, fails for a closure
  that unsubscribes itself. With \<^verbatim>\<open>func() { gs.Unsubscribe() }\<close> at count 2 the call
  leaves the count at 0, two less than before. With \<^verbatim>\<open>func() { gs.UnsubscribeN(5) }\<close>
  at count 3 the closure leaves the count at 0 and the deferred \<^verbatim>\<open>Unsubscribe()\<close>
  finds nothing to take: the count has not gone down by one over the call, nor from
  what the closure left.
\<close>

theorem UnsubscribeFn_closure_unsubscribes_itself:
  "Count \<lparr>wg = \<lparr>counter = 2, waiters = 0\<rparr>, list = 2\<rparr> = 2
   \<and> UnsubscribeFn (\<lambda>(g, w). case Unsubscribe g of (g', oc) \<Rightarrow> Some ((g', w), oc))
        (\<lparr>wg = \<lparr>counter = 2, waiters = 0\<rparr>, list = 2\<rparr>, ())
       = Some ((\<lparr>wg = \<lparr>counter = 0, waiters = 0\<rparr>, list = 0\<rparr>, ()), Returned)
   \<and> Count \<lparr>wg = \<lparr>counter = 3, waiters = 0\<rparr>, list = 3\<rparr> = 3
   \<and> (\<lambda>(g, w). case UnsubscribeN 5 g of (g', oc) \<Rightarrow> Some ((g', w), oc))
        (\<lparr>wg = \<lparr>counter = 3, waiters = 0\<rparr>, list = 3\<rparr>, ())
       = Some ((\<lparr>wg = \<lparr>counter = 0, waiters = 0\<rparr>, list = 0\<rparr>, ()), Returned)
   \<and> UnsubscribeFn (\<lambda>(g, w). case UnsubscribeN 5 g of (g', oc) \<Rightarrow> Some ((g', w), oc))
        (\<lparr>wg = \<lparr>counter = 3, waiters = 0\<rparr>, list = 3\<rparr>, ())
       = Some ((\<lparr>wg = \<lparr>counter = 0, waiters = 0\<rparr>, list = 0\<rparr>, ()), Returned)"
  by code_simp

subsection \<open>Goroutines unsubscribing concurrently\<close>

text \<open>
  A goroutine that is scheduled alone does what the sequential functions do: the
  program points of \<open>step\<close> cut \<^verbatim>\<open>Unsubscribe\<close> and \<^verbatim>\<open>UnsubscribeN\<close> at their atomic
  accesses and change nothing else.
\<close>

lemma alone_Unsubscribe:
  "run_schedule [0, 0, 0] ([Unsubscribe_Load], gs) =
     ([Finished (snd (Unsubscribe gs))], fst (Unsubscribe gs))"
  by (simp add: Unsubscribe_def split: prod.split)

lemma alone_Done_loop:
  "\<exists>n. run_schedule (replicate n 0) ([UnsubscribeN_Loop i count], gs) =
     ([Finished (snd (Done_loop i count gs))], fst (Done_loop i count gs))"
proof (induction i count gs rule: Done_loop.induct)
  case (1 i count gs)
  show ?case
  proof (cases "i <s count")
    case False
    then have "run_schedule (replicate 1 0) ([UnsubscribeN_Loop i count], gs) =
     ([Finished (snd (Done_loop i count gs))], fst (Done_loop i count gs))"
      by (simp add: Done_loop_stop)
    then show ?thesis by blast
  next
    case True
    obtain gs' oc where d: "wg_Done gs = (gs', oc)" by (cases "wg_Done gs")
    show ?thesis
    proof (cases oc)
      case Panicked
      have "Done_loop i count gs = (gs', Panicked)"
        using True d Panicked by (subst Done_loop.simps) simp
      then have "run_schedule (replicate 1 0) ([UnsubscribeN_Loop i count], gs) =
       ([Finished (snd (Done_loop i count gs))], fst (Done_loop i count gs))"
        using True d Panicked by simp
      then show ?thesis by blast
    next
      case Returned
      have e: "Done_loop i count gs = Done_loop (i + 1) count gs'"
        using True d Returned by (subst Done_loop.simps) simp
      obtain n where "run_schedule (replicate n 0) ([UnsubscribeN_Loop (i + 1) count], gs') =
       ([Finished (snd (Done_loop (i + 1) count gs'))], fst (Done_loop (i + 1) count gs'))"
        using "1.IH" [OF True d [symmetric] Returned] by blast
      then have "run_schedule (replicate (Suc n) 0) ([UnsubscribeN_Loop i count], gs) =
       ([Finished (snd (Done_loop i count gs))], fst (Done_loop i count gs))"
        using True d Returned e by simp
      then show ?thesis by blast
    qed
  qed
qed

lemma alone_UnsubscribeN:
  "\<exists>n. run_schedule (replicate n 0) ([UnsubscribeN_Load k], gs) =
     ([Finished (snd (UnsubscribeN k gs))], fst (UnsubscribeN k gs))"
proof (cases "list gs = 0")
  case True
  then have "run_schedule (replicate 1 0) ([UnsubscribeN_Load k], gs) =
     ([Finished (snd (UnsubscribeN k gs))], fst (UnsubscribeN k gs))"
    by (simp add: UnsubscribeN_def)
  then show ?thesis by blast
next
  case False
  define m where "m = (if list gs <s k then list gs else k)"
  obtain n where "run_schedule (replicate n 0)
      ([UnsubscribeN_Loop 0 m], list_Add (m * - 1) gs) =
     ([Finished (snd (Done_loop 0 m (list_Add (m * - 1) gs)))],
      fst (Done_loop 0 m (list_Add (m * - 1) gs)))"
    using alone_Done_loop by blast
  then have "run_schedule (replicate (Suc (Suc n)) 0) ([UnsubscribeN_Load k], gs) =
     ([Finished (snd (UnsubscribeN k gs))], fst (UnsubscribeN k gs))"
    using False by (simp add: UnsubscribeN_def Let_def m_def)
  then show ?thesis by blast
qed

text \<open>
  Claim C2 asks that concurrent \<^verbatim>\<open>Unsubscribe\<close> calls never push the count below zero,
  the decrement and its clamp being one atomic update. In \<^verbatim>\<open>gs.go\<close> the test
  \<^verbatim>\<open>gs.list.Load() == 0\<close> and the store \<^verbatim>\<open>gs.list.Add(-1)\<close> are two accesses. On a
  coordinator with one subscription, two goroutines in \<^verbatim>\<open>Unsubscribe()\<close> that both
  load the count before either subtracts both pass the test: the counter ends at
  \<open>-1\<close>, and the second \<^verbatim>\<open>Done\<close> panics on a negative \<^verbatim>\<open>WaitGroup\<close> counter. The same
  happens to \<^verbatim>\<open>UnsubscribeN(1)\<close>, which is what \<^verbatim>\<open>WaitWithTimeout\<close> runs when its timer
  fires, when a worker's \<^verbatim>\<open>Unsubscribe()\<close> completes between its load and its add.
\<close>

theorem concurrent_Unsubscribe_goes_negative:
  "Subscribe New = (\<lparr>wg = \<lparr>counter = 1, waiters = 0\<rparr>, list = 1\<rparr>, Returned)
   \<and> run_schedule [0, 1, 0, 1, 0, 1]
     ([Unsubscribe_Load, Unsubscribe_Load], \<lparr>wg = \<lparr>counter = 1, waiters = 0\<rparr>, list = 1\<rparr>) =
     ([Finished Returned, Finished Panicked],
      \<lparr>wg = \<lparr>counter = - 1, waiters = 0\<rparr>, list = - 1\<rparr>)
   \<and> run_schedule [0, 1, 1, 1, 0, 0]
     ([UnsubscribeN_Load 1, Unsubscribe_Load], \<lparr>wg = \<lparr>counter = 1, waiters = 0\<rparr>, list = 1\<rparr>) =
     ([Finished Panicked, Finished Returned],
      \<lparr>wg = \<lparr>counter = - 1, waiters = 0\<rparr>, list = - 1\<rparr>)
   \<and> sint (Count \<lparr>wg = \<lparr>counter = - 1, waiters = 0\<rparr>, list = - 1\<rparr>) = - 1"
  by code_simp

subsection \<open>WaitWithTimeout racing a worker\<close>

text \<open>
  Three runs of \<^verbatim>\<open>WaitWithTimeout\<close> with no such race. With three subscriptions
  and nothing unsubscribing, the timer fires and the call returns with the counter and
  the barrier at zero. With one subscription and a worker that unsubscribes in time,
  the call returns through \<^verbatim>\<open>doneCh\<close>. On a coordinator whose counter is 1 while its
  barrier is 0, a timer that fires before the started goroutine has reached \<^verbatim>\<open>Wait\<close>
  makes \<^verbatim>\<open>Done\<close> panic, and the deferred receive then waits for a goroutine that is
  blocked for good.
\<close>

lemma WaitWithTimeout_nothing_unsubscribing:
  "run_events
     [Run 0, Run 1, Timer 0, Run 0, Run 0, Run 0, Run 0, Run 0, Run 0, Run 0, Run 0,
      Run 1, Run 1, Run 1, Run 0]
     ([WaitWithTimeout_Go 0],
      \<lparr>coord = \<lparr>wg = \<lparr>counter = 3, waiters = 0\<rparr>, list = 3\<rparr>, sema = 0, closed = []\<rparr>) =
     ([Ended Returned, Ended Returned],
      \<lparr>coord = \<lparr>wg = \<lparr>counter = 0, waiters = 0\<rparr>, list = 0\<rparr>, sema = 0, closed = [0]\<rparr>)"
  by code_simp

lemma WaitWithTimeout_natural_completion:
  "run_events
     [Run 0, Run 2, Run 1, Run 1, Run 1, Run 2, Run 2, Run 2, Run 0, Run 0]
     ([WaitWithTimeout_Go 0, Worker Unsubscribe_Load],
      \<lparr>coord = \<lparr>wg = \<lparr>counter = 1, waiters = 0\<rparr>, list = 1\<rparr>, sema = 0, closed = []\<rparr>) =
     ([Ended Returned, Worker (Finished Returned), Ended Returned],
      \<lparr>coord = \<lparr>wg = \<lparr>counter = 0, waiters = 0\<rparr>, list = 0\<rparr>, sema = 0, closed = [0]\<rparr>)"
  by code_simp

lemma WaitWithTimeout_timer_before_Wait:
  "run_events
     [Run 0, Timer 0, Run 0, Run 0, Run 0, Run 0, Run 0, Run 1, Run 1, Run 0]
     ([WaitWithTimeout_Go 0],
      \<lparr>coord = \<lparr>wg = \<lparr>counter = 0, waiters = 0\<rparr>, list = 1\<rparr>, sema = 0, closed = []\<rparr>) =
     ([WaitWithTimeout_Receive 0 Panicked, Wait_Blocked 0],
      \<lparr>coord = \<lparr>wg = \<lparr>counter = - 1, waiters = 1\<rparr>, list = 0\<rparr>, sema = 0, closed = []\<rparr>)"
  by code_simp

text \<open>
  Claim C8 says that when the timer of \<^verbatim>\<open>WaitWithTimeout\<close> fires before the count has
  reached zero, \<^verbatim>\<open>Count()\<close> is 0 right after the call returns. The workers the call
  has stopped waiting for are still running. On a coordinator with two subscriptions,
  let the timer fire and let a worker's \<^verbatim>\<open>Unsubscribe()\<close> load and subtract between the
  load and the subtraction of the call's \<^verbatim>\<open>UnsubscribeN(Count())\<close>: the call subtracts
  the 2 it has read from a counter that is now 1, its two \<^verbatim>\<open>Done\<close> bring the barrier to
  zero, the started goroutine closes \<^verbatim>\<open>doneCh\<close>, and the call returns with \<^verbatim>\<open>Count()\<close>
  at \<open>-1\<close>. The worker's own \<^verbatim>\<open>Done\<close> is still to come.
\<close>

theorem WaitWithTimeout_returns_with_negative_Count:
  "SubscribeN 2 New = (\<lparr>wg = \<lparr>counter = 2, waiters = 0\<rparr>, list = 2\<rparr>, Returned)
   \<and> run_events
     [Run 0, Run 2, Timer 0, Run 0, Run 0, Run 1, Run 1, Run 0, Run 0, Run 0, Run 0, Run 0,
      Run 2, Run 2, Run 2, Run 0]
     ([WaitWithTimeout_Go 0, Worker Unsubscribe_Load],
      \<lparr>coord = \<lparr>wg = \<lparr>counter = 2, waiters = 0\<rparr>, list = 2\<rparr>, sema = 0, closed = []\<rparr>) =
     ([Ended Returned, Worker Unsubscribe_Done, Ended Returned],
      \<lparr>coord = \<lparr>wg = \<lparr>counter = 0, waiters = 0\<rparr>, list = - 1\<rparr>, sema = 0, closed = [0]\<rparr>)
   \<and> sint (Count \<lparr>wg = \<lparr>counter = 0, waiters = 0\<rparr>, list = - 1\<rparr>) = - 1"
  by code_simp

end
